theory Spec2Isabelle
  imports Main "HOL-Library.List_Lexorder"
begin

section \<open>Python strings\<close>

text \<open>
  A Python \<open>str\<close> is a sequence of Unicode code points, so a string is a list of
  natural numbers here (an 8-bit \<open>char\<close> would lose the whitespace and line-break code
  points above 255 that \<open>str.strip\<close> and \<open>str.splitlines\<close> know). \<open>str\<close> turns
  an ASCII literal into that representation.
\<close>

type_synonym codepoint = nat
type_synonym pystr = "codepoint list"

definition str :: "string \<Rightarrow> pystr" where
  "str s = map of_char s"

text \<open>
  The code points for which \<open>str.isspace\<close> holds: \<open>str.strip()\<close> removes them
  from both ends.
\<close>

definition py_isspace :: "codepoint \<Rightarrow> bool" where
  "py_isspace c \<longleftrightarrow> c \<in> set [9, 10, 11, 12, 13, 28, 29, 30, 31, 32, 133, 160, 5760,
     8192, 8193, 8194, 8195, 8196, 8197, 8198, 8199, 8200, 8201, 8202,
     8232, 8233, 8239, 8287, 12288]"

text \<open>The line boundaries of \<open>str.splitlines\<close>.\<close>

definition py_islinebreak :: "codepoint \<Rightarrow> bool" where
  "py_islinebreak c \<longleftrightarrow> c \<in> set [10, 11, 12, 13, 28, 29, 30, 133, 8232, 8233]"

definition py_strip :: "pystr \<Rightarrow> pystr" where
  "py_strip s = rev (dropWhile py_isspace (rev (dropWhile py_isspace s)))"

text \<open>
  \<open>str.splitlines()\<close>: a line runs up to the next line boundary, which is dropped;
  a carriage return followed by a line feed is one boundary; a last line is kept only
  when it is not empty. The first argument is the line read so far.
\<close>

fun splitlines_from :: "pystr \<Rightarrow> pystr \<Rightarrow> pystr list" where
  "splitlines_from line [] = (if line = [] then [] else [line])"
| "splitlines_from line (c # cs) =
     (if py_islinebreak c
      then line # splitlines_from [] (if c = 13 \<and> cs \<noteq> [] \<and> hd cs = 10 then tl cs else cs)
      else splitlines_from (line @ [c]) cs)"

definition py_splitlines :: "pystr \<Rightarrow> pystr list" where
  "py_splitlines s = splitlines_from [] s"

text \<open>\<open>sep.join(xs)\<close>, for strings and for lists of lines alike.\<close>

fun py_join :: "'a list \<Rightarrow> 'a list list \<Rightarrow> 'a list" where
  "py_join sep [] = []"
| "py_join sep [x] = x"
| "py_join sep (x # y # ys) = x @ sep @ py_join sep (y # ys)"

section \<open>The EPUB package (ebooklib)\<close>

text \<open>
  Modelled from the spec: the EPUB container reader (ebooklib) is an external collaborator.
  A package exposes the ordered spine, a lookup from identifier to item and the
  enumeration of the items of one type. ebooklib keeps the items in one list;
  \<open>get_item_with_id\<close> returns the first item of that list with the identifier (or None)
  and \<open>get_items_of_type\<close> filters the list in its order.
\<close>

datatype item_type = ITEM_UNKNOWN | ITEM_IMAGE | ITEM_STYLE | ITEM_NAVIGATION | ITEM_DOCUMENT

record item =
  get_id :: pystr
  get_type :: item_type
  get_content :: pystr

text \<open>
  A spine entry is a bare identifier or a tuple whose first element is the identifier
  (ebooklib's reader builds pairs \<open>(idref, linear)\<close>).
\<close>

datatype spine_entry = Bare pystr | Composite pystr pystr

record package =
  spine :: "spine_entry list"
  items :: "item list"

definition get_item_with_id :: "package \<Rightarrow> pystr \<Rightarrow> item option" where
  "get_item_with_id book uid = find (\<lambda>i. get_id i = uid) (items book)"

definition get_items_of_type :: "package \<Rightarrow> item_type \<Rightarrow> item list" where
  "get_items_of_type book t = filter (\<lambda>i. get_type i = t) (items book)"

section \<open>The spine resolver\<close>

text \<open>\<open>item_id = spine_item[0] if isinstance(spine_item, tuple) else spine_item\<close>\<close>

fun entry_id :: "spine_entry \<Rightarrow> pystr" where
  "entry_id (Composite first rest) = first"
| "entry_id (Bare ident) = ident"

text \<open>
  The first loop of \<open>iter_documents_in_order\<close>, over the spine. The state is the pair
  of \<open>seen_ids\<close> and the items yielded so far.
\<close>

fun spine_loop :: "package \<Rightarrow> spine_entry list \<Rightarrow> pystr set \<times> item list \<Rightarrow> pystr set \<times> item list" where
  "spine_loop book [] st = st"
| "spine_loop book (spine_item # rest) (seen_ids, yielded) =
     (let item_id = entry_id spine_item in
      case get_item_with_id book item_id of
        None \<Rightarrow> spine_loop book rest (seen_ids, yielded)
      | Some item \<Rightarrow>
          if get_type item = ITEM_DOCUMENT
          then spine_loop book rest (insert item_id seen_ids, yielded @ [item])
          else spine_loop book rest (seen_ids, yielded))"

text \<open>The second loop: the documents whose identifier was not seen.\<close>

fun fallback_loop :: "item list \<Rightarrow> pystr set \<Rightarrow> item list \<Rightarrow> item list" where
  "fallback_loop [] seen_ids yielded = yielded"
| "fallback_loop (item # rest) seen_ids yielded =
     (if get_id item \<notin> seen_ids
      then fallback_loop rest seen_ids (yielded @ [item])
      else fallback_loop rest seen_ids yielded)"

text \<open>The generator, as the list of the items it yields.\<close>

definition iter_documents_in_order :: "package \<Rightarrow> item list" where
  "iter_documents_in_order book =
     (case spine_loop book (spine book) ({}, []) of
        (seen_ids, yielded) \<Rightarrow>
          fallback_loop (get_items_of_type book ITEM_DOCUMENT) seen_ids yielded)"

subsection \<open>What the two loops compute\<close>

text \<open>The document a spine entry resolves to, if any.\<close>

definition resolve :: "package \<Rightarrow> spine_entry \<Rightarrow> item option" where
  "resolve book e =
     (case get_item_with_id book (entry_id e) of
        None \<Rightarrow> None
      | Some i \<Rightarrow> if get_type i = ITEM_DOCUMENT then Some i else None)"

subsection \<open>Example packages\<close>

definition docA :: item where
  "docA = \<lparr>get_id = str ''A'', get_type = ITEM_DOCUMENT, get_content = str ''<p>a</p>''\<rparr>"

definition docB :: item where
  "docB = \<lparr>get_id = str ''B'', get_type = ITEM_DOCUMENT, get_content = str ''<p>b</p>''\<rparr>"

definition docC :: item where
  "docC = \<lparr>get_id = str ''C'', get_type = ITEM_DOCUMENT, get_content = str ''<p>c</p>''\<rparr>"

definition css :: item where
  "css = \<lparr>get_id = str ''css'', get_type = ITEM_STYLE, get_content = str ''p {}''\<rparr>"

text \<open>Spine \<open>[A, B]\<close> and an extra document \<open>C\<close>, enumerated first.\<close>

definition pkg_abc :: package where
  "pkg_abc = \<lparr>spine = [Bare (str ''A''), Composite (str ''B'') (str ''yes'')],
              items = [docC, css, docA, docB]\<rparr>"

text \<open>A spine that references the document \<open>A\<close> twice.\<close>

definition pkg_twice :: package where
  "pkg_twice = \<lparr>spine = [Bare (str ''A''), Bare (str ''A'')], items = [docA]\<rparr>"

text \<open>A spine with a stylesheet and an identifier that no item has.\<close>

definition pkg_skip :: package where
  "pkg_skip = \<lparr>spine = [Bare (str ''A''), Bare (str ''css''), Bare (str ''missing''), Bare (str ''B'')],
               items = [docA, docB, css]\<rparr>"

section \<open>The document tree (BeautifulSoup)\<close>

text \<open>
  Modelled from the spec: the HTML parser (BeautifulSoup) is an external collaborator.
  A tree node is a text string, a string that text extraction skips (a comment), or an
  element with its name, the tokens of its class attribute and its children; the
  function reads no other attribute. A soup is the list of the top-level nodes.
\<close>

datatype node =
  NavigableString pystr
| Comment pystr
| Tag pystr "pystr list" "node list"

type_synonym soup = "node list"

text \<open>
  \<open>for spacer in soup.select(".empty-line"): spacer.string = "\n"\<close>: every element
  whose class tokens include \<open>empty-line\<close> gets the single child \<open>"\n"\<close>. Setting
  \<open>.string\<close> clears the element first, so the marked elements below a marked element
  leave the tree with its old children.
\<close>

fun set_spacer_string :: "node \<Rightarrow> node" where
  "set_spacer_string (Tag name classes children) =
     (if str ''empty-line'' \<in> set classes
      then Tag name classes [NavigableString [10]]
      else Tag name classes (map set_spacer_string children))"
| "set_spacer_string (NavigableString s) = NavigableString s"
| "set_spacer_string (Comment s) = Comment s"

text \<open>The text strings of a node, in document order.\<close>

fun all_strings :: "node \<Rightarrow> pystr list" where
  "all_strings (NavigableString s) = [s]"
| "all_strings (Comment s) = []"
| "all_strings (Tag name classes children) = concat (map all_strings children)"

text \<open>\<open>soup.get_text(separator=sep, strip=False)\<close>\<close>

definition get_text :: "pystr \<Rightarrow> soup \<Rightarrow> pystr" where
  "get_text sep sp = py_join sep (concat (map all_strings sp))"

section \<open>The gap-preserving normalizer\<close>

text \<open>
  The loop over the raw lines (lines 17 to 27); the state is \<open>cleaned\<close> and
  \<open>previous_blank\<close>.
\<close>

fun clean_loop :: "pystr list \<Rightarrow> pystr list \<times> bool \<Rightarrow> pystr list \<times> bool" where
  "clean_loop [] st = st"
| "clean_loop (line # rest) (cleaned, previous_blank) =
     (let stripped = py_strip line in
      if stripped = []
      then clean_loop rest
             (if cleaned \<noteq> [] \<and> \<not> previous_blank then cleaned @ [[]] else cleaned, True)
      else clean_loop rest (cleaned @ [stripped], False))"

definition clean_lines :: "pystr list \<Rightarrow> pystr list" where
  "clean_lines lines = fst (clean_loop lines ([], False))"

text \<open>Lines 15 to 29: from the raw text to the returned text.\<close>

definition normalize_text :: "pystr \<Rightarrow> pystr" where
  "normalize_text raw_text = py_strip (py_join [10] (clean_lines (py_splitlines raw_text)))"

definition clean_text_preserving_gaps :: "soup \<Rightarrow> pystr" where
  "clean_text_preserving_gaps sp =
     normalize_text (get_text [10] (map set_spacer_string sp))"

text \<open>No two neighbouring lines are both empty.\<close>

fun no_double_blank :: "pystr list \<Rightarrow> bool" where
  "no_double_blank [] = True"
| "no_double_blank [x] = True"
| "no_double_blank (x # y # zs) = (\<not> (x = [] \<and> y = []) \<and> no_double_blank (y # zs))"

text \<open>
  The invariant of the loop: \<open>cleaned\<close> does not start with an empty line, has no two
  neighbouring empty lines, holds only stripped lines, and \<open>previous_blank\<close> is set
  whenever its last line is empty.
\<close>

definition clean_inv :: "pystr list \<times> bool \<Rightarrow> bool" where
  "clean_inv st \<longleftrightarrow>
     (case st of (cleaned, previous_blank) \<Rightarrow>
        (cleaned \<noteq> [] \<longrightarrow> hd cleaned \<noteq> []) \<and>
        no_double_blank cleaned \<and>
        (\<forall>l \<in> set cleaned. l = [] \<or> (\<not> py_isspace (hd l) \<and> \<not> py_isspace (last l))) \<and>
        (cleaned \<noteq> [] \<and> last cleaned = [] \<longrightarrow> previous_blank))"

text \<open>
  The final \<open>strip()\<close> removes at most the line break before a last empty line of
  \<open>cleaned\<close>: these are the lines that stay.
\<close>

definition kept_lines :: "pystr list \<Rightarrow> pystr list" where
  "kept_lines cleaned = (if cleaned \<noteq> [] \<and> last cleaned = [] then butlast cleaned else cleaned)"

subsection \<open>Example documents\<close>

text \<open>\<open><p>Hello</p><div class="empty-line"></div><p>World</p>\<close>\<close>

definition hello_world :: soup where
  "hello_world =
     [Tag (str ''p'') [] [NavigableString (str ''Hello'')],
      Tag (str ''div'') [str ''empty-line''] [],
      Tag (str ''p'') [] [NavigableString (str ''World'')]]"

text \<open>Incidental whitespace around and between two paragraphs.\<close>

definition spaced :: soup where
  "spaced =
     [NavigableString [10, 32, 32],
      Tag (str ''p'') [] [NavigableString (str '' one '')],
      NavigableString [10, 10, 9, 13, 10],
      Comment (str ''note''),
      Tag (str ''p'') [str ''x''] [NavigableString (str ''two'')],
      NavigableString [10]]"

section \<open>Conversion of one EPUB and of a directory\<close>

text \<open>
  Modelled from the spec: the file system and the two libraries are external
  collaborators. What the program reads from them is a parameter: whether a path is a
  directory, the entries of a directory (name, and whether the entry is a regular file),
  the package \<open>epub.read_epub\<close> returns for a path (or the error it raises) and the tree
  \<open>BeautifulSoup(content, "html.parser")\<close> builds.
\<close>

datatype error = ValueError | ReadError

record dir_entry =
  entry_name :: pystr
  is_file :: bool

record env =
  is_dir :: "pystr \<Rightarrow> bool"
  iterdir :: "pystr \<Rightarrow> dir_entry list"
  read_epub :: "pystr \<Rightarrow> error + package"
  html_parser :: "pystr \<Rightarrow> soup"

text \<open>
  What the program changes: the text files it writes, the lines it prints and the
  directories it creates.
\<close>

datatype message = Converted pystr pystr | NoEpubFound pystr

record world =
  files :: "pystr \<rightharpoonup> pystr"
  stdout :: "message list"
  made_dirs :: "pystr set"

text \<open>The loop of \<open>epub_to_txt\<close> that collects \<open>text_content\<close>.\<close>

fun text_loop :: "env \<Rightarrow> item list \<Rightarrow> pystr list \<Rightarrow> pystr list" where
  "text_loop e [] text_content = text_content"
| "text_loop e (item # rest) text_content =
     (let sp = html_parser e (get_content item);
          text = clean_text_preserving_gaps sp
      in text_loop e rest (text_content @ [text]))"

text \<open>\<open>"\n\n".join(text_content)\<close> for a package.\<close>

definition document_text :: "env \<Rightarrow> package \<Rightarrow> pystr" where
  "document_text e book = py_join [10, 10] (text_loop e (iter_documents_in_order book) [])"

definition epub_to_txt :: "env \<Rightarrow> pystr \<Rightarrow> pystr \<Rightarrow> world \<Rightarrow> error + world" where
  "epub_to_txt e epub_path txt_path w =
     (case read_epub e epub_path of
        Inl err \<Rightarrow> Inl err
      | Inr book \<Rightarrow>
          Inr (w\<lparr>files := (files w)(txt_path \<mapsto> document_text e book),
                 stdout := stdout w @ [Converted epub_path txt_path]\<rparr>))"

subsection \<open>Paths (pathlib)\<close>

text \<open>
  Modelled from the spec: \<open>name.rfind('.')\<close>, and \<open>suffix\<close> and \<open>stem\<close> of a file
  name as pathlib computes them: the part from the last dot on, when that dot is neither
  the first nor the last character of the name.
\<close>

definition rfind_dot :: "pystr \<Rightarrow> nat option" where
  "rfind_dot name =
     (if 46 \<in> set name then Some (length name - 1 - length (takeWhile (\<lambda>c. c \<noteq> 46) (rev name)))
      else None)"

definition py_suffix :: "pystr \<Rightarrow> pystr" where
  "py_suffix name =
     (case rfind_dot name of
        None \<Rightarrow> []
      | Some i \<Rightarrow> if 0 < i \<and> i < length name - 1 then drop i name else [])"

definition py_stem :: "pystr \<Rightarrow> pystr" where
  "py_stem name =
     (case rfind_dot name of
        None \<Rightarrow> name
      | Some i \<Rightarrow> if 0 < i \<and> i < length name - 1 then take i name else name)"

text \<open>
  \<open>str.lower()\<close> on the ASCII letters. The code points outside ASCII keep their value
  here; no such code point has \<open>.\<close>, \<open>e\<close>, \<open>p\<close>, \<open>u\<close> or \<open>b\<close> as its lower case, so
  the comparison with \<open>".epub"\<close> is the one Python makes.
\<close>

definition py_lower :: "pystr \<Rightarrow> pystr" where
  "py_lower s = map (\<lambda>c. if 65 \<le> c \<and> c \<le> 90 then c + 32 else c) s"

text \<open>
  \<open>str(directory / name)\<close>, for a directory written without a trailing separator.
\<close>

definition path_join :: "pystr \<Rightarrow> pystr \<Rightarrow> pystr" where
  "path_join directory name = directory @ [47] @ name"

subsection \<open>Batch mode\<close>

text \<open>
  The sorted list of the selected entries, by name: the paths have the same parent, so
  their order is the order of the names, code point by code point.
\<close>

definition epub_files :: "env \<Rightarrow> pystr \<Rightarrow> pystr list" where
  "epub_files e input_dir =
     sort (map entry_name
       (filter (\<lambda>p. is_file p \<and> py_lower (py_suffix (entry_name p)) = str ''.epub'')
          (iterdir e input_dir)))"

definition target_txt :: "pystr \<Rightarrow> pystr \<Rightarrow> pystr" where
  "target_txt output_dir epub_file = path_join output_dir (py_stem epub_file @ str ''.txt'')"

text \<open>The loop over \<open>epub_files\<close>; an error of one conversion ends the run.\<close>

fun convert_loop :: "env \<Rightarrow> pystr \<Rightarrow> pystr \<Rightarrow> pystr list \<Rightarrow> world \<Rightarrow> error + world" where
  "convert_loop e input_dir output_dir [] w = Inr w"
| "convert_loop e input_dir output_dir (epub_file # rest) w =
     (case epub_to_txt e (path_join input_dir epub_file) (target_txt output_dir epub_file) w of
        Inl err \<Rightarrow> Inl err
      | Inr w' \<Rightarrow> convert_loop e input_dir output_dir rest w')"

definition convert_directory :: "env \<Rightarrow> pystr \<Rightarrow> pystr \<Rightarrow> world \<Rightarrow> error + world" where
  "convert_directory e input_dir output_dir w =
     (if \<not> is_dir e input_dir then Inl ValueError
      else
        let w1 = w\<lparr>made_dirs := insert output_dir (made_dirs w)\<rparr> in
        if epub_files e input_dir = []
        then Inr (w1\<lparr>stdout := stdout w1 @ [NoEpubFound input_dir]\<rparr>)
        else convert_loop e input_dir output_dir (epub_files e input_dir) w1)"

text \<open>The text a conversion of the EPUB at a path writes, when the EPUB can be read.\<close>

definition converted :: "env \<Rightarrow> pystr \<Rightarrow> pystr option" where
  "converted e epub_path =
     (case read_epub e epub_path of Inl err \<Rightarrow> None | Inr book \<Rightarrow> Some (document_text e book))"

subsection \<open>Example directories\<close>

definition world0 :: world where
  "world0 = \<lparr>files = Map.empty, stdout = [], made_dirs = {}\<rparr>"

text \<open>A parser stand-in for the examples: the content as one paragraph.\<close>

definition one_paragraph :: "pystr \<Rightarrow> soup" where
  "one_paragraph content = [Tag (str ''p'') [] [NavigableString content]]"

text \<open>The directory \<open>in\<close> with \<open>b.epub\<close>, \<open>a.EPUB\<close> and \<open>notes.txt\<close>.\<close>

definition env_batch :: env where
  "env_batch =
     \<lparr>is_dir = (\<lambda>d. d = str ''in''),
      iterdir = (\<lambda>d. if d = str ''in''
                      then [\<lparr>entry_name = str ''b.epub'', is_file = True\<rparr>,
                            \<lparr>entry_name = str ''a.EPUB'', is_file = True\<rparr>,
                            \<lparr>entry_name = str ''notes.txt'', is_file = True\<rparr>]
                      else []),
      read_epub = (\<lambda>p. if p = str ''in/a.EPUB'' then Inr pkg_abc
                        else if p = str ''in/b.epub'' then Inr pkg_skip
                        else Inl ReadError),
      html_parser = one_paragraph\<rparr>"

text \<open>The directory \<open>in\<close> with \<open>a.epub\<close> and \<open>a.EPUB\<close>.\<close>

definition env_case :: env where
  "env_case =
     \<lparr>is_dir = (\<lambda>d. d = str ''in''),
      iterdir = (\<lambda>d. if d = str ''in''
                      then [\<lparr>entry_name = str ''a.epub'', is_file = True\<rparr>,
                            \<lparr>entry_name = str ''a.EPUB'', is_file = True\<rparr>]
                      else []),
      read_epub = (\<lambda>p. if p = str ''in/a.EPUB'' then Inr pkg_abc
                        else if p = str ''in/a.epub'' then Inr pkg_twice
                        else Inl ReadError),
      html_parser = one_paragraph\<rparr>"

text \<open>The directory \<open>in\<close> whose one entry is a subdirectory named \<open>x.epub\<close>.\<close>

definition env_subdir :: env where
  "env_subdir =
     \<lparr>is_dir = (\<lambda>d. d = str ''in''),
      iterdir = (\<lambda>d. if d = str ''in'' then [\<lparr>entry_name = str ''x.epub'', is_file = False\<rparr>] else []),
      read_epub = (\<lambda>p. Inl ReadError),
      html_parser = one_paragraph\<rparr>"

section \<open>Properties of the spine resolver\<close>

lemma spine_loop_eq:
  "spine_loop book es (seen, out) =
     (seen \<union> entry_id ` {e \<in> set es. resolve book e \<noteq> None},
      out @ List.map_filter (resolve book) es)"
proof (induction es arbitrary: seen out)
  case Nil
  show ?case by simp
next
  case (Cons e es)
  show ?case
    by (cases "get_item_with_id book (entry_id e)")
       (auto simp: Cons.IH resolve_def)
qed

lemma fallback_loop_eq:
  "fallback_loop xs seen out = out @ filter (\<lambda>i. get_id i \<notin> seen) xs"
  by (induction xs arbitrary: out) auto

lemma iter_documents_in_order_eq:
  "iter_documents_in_order book =
     List.map_filter (resolve book) (spine book) @
     filter (\<lambda>i. get_id i \<notin> entry_id ` {e \<in> set (spine book). resolve book e \<noteq> None})
       (get_items_of_type book ITEM_DOCUMENT)"
  by (simp add: iter_documents_in_order_def spine_loop_eq fallback_loop_eq)

lemma resolve_spine_update [simp]:
  "resolve (book\<lparr>spine := sp\<rparr>) e = resolve book e"
  by (simp add: resolve_def get_item_with_id_def)

lemma get_items_of_type_spine_update [simp]:
  "get_items_of_type (book\<lparr>spine := sp\<rparr>) t = get_items_of_type book t"
  by (simp add: get_items_of_type_def)

lemma get_item_with_id_spine_update [simp]:
  "get_item_with_id (book\<lparr>spine := sp\<rparr>) uid = get_item_with_id book uid"
  by (simp add: get_item_with_id_def)

lemma spine_loop_spine_update [simp]:
  "spine_loop (book\<lparr>spine := sp\<rparr>) es st = spine_loop book es st"
  by (induction es arbitrary: st) (auto simp: Let_def split: option.splits)

lemma spine_loop_entry_ids:
  "map entry_id sp1 = map entry_id sp2 \<Longrightarrow> spine_loop book sp1 st = spine_loop book sp2 st"
proof (induction sp1 arbitrary: sp2 st)
  case Nil
  then show ?case by simp
next
  case (Cons e es)
  then obtain e' es' where sp2: "sp2 = e' # es'" and e: "entry_id e = entry_id e'"
    and es: "map entry_id es = map entry_id es'"
    by (cases sp2) auto
  obtain seen out where st: "st = (seen, out)" by (cases st)
  show ?case
    by (simp add: sp2 st e Cons.IH [OF es] Let_def split: option.splits)
qed

lemma find_unique_id:
  "distinct (map get_id xs) \<Longrightarrow> i \<in> set xs \<Longrightarrow> find (\<lambda>j. get_id j = get_id i) xs = Some i"
  by (induction xs) (auto simp: image_iff)

lemma find_in_set: "find P xs = Some x \<Longrightarrow> x \<in> set xs \<and> P x"
  by (induction xs) (auto split: if_splits)

lemma resolve_Some_iff:
  assumes "distinct (map get_id (items book))"
    and "i \<in> set (items book)" and "get_type i = ITEM_DOCUMENT"
  shows "resolve book e = Some i \<longleftrightarrow> entry_id e = get_id i"
proof
  assume "resolve book e = Some i"
  then have "find (\<lambda>j. get_id j = entry_id e) (items book) = Some i"
    by (auto simp: resolve_def get_item_with_id_def split: option.splits if_splits)
  then show "entry_id e = get_id i"
    using find_in_set by fastforce
next
  assume "entry_id e = get_id i"
  then show "resolve book e = Some i"
    using assms by (simp add: resolve_def get_item_with_id_def find_unique_id)
qed

lemma resolve_SomeD:
  "resolve book e = Some i \<Longrightarrow>
     i \<in> set (items book) \<and> get_type i = ITEM_DOCUMENT \<and> get_id i = entry_id e"
  by (auto simp: resolve_def get_item_with_id_def split: option.splits if_splits
           dest: find_in_set)

lemma seen_iff_referenced:
  assumes "distinct (map get_id (items book))"
    and "i \<in> set (items book)" and "get_type i = ITEM_DOCUMENT"
  shows "get_id i \<in> entry_id ` {e \<in> set sp. resolve book e \<noteq> None}
           \<longleftrightarrow> get_id i \<in> entry_id ` set sp"
proof
  assume "get_id i \<in> entry_id ` set sp"
  then obtain e where e: "e \<in> set sp" "entry_id e = get_id i" by auto
  then have "resolve book e = Some i"
    using resolve_Some_iff [OF assms] by simp
  with e show "get_id i \<in> entry_id ` {e \<in> set sp. resolve book e \<noteq> None}"
    by force
qed auto

lemma count_list_declared:
  assumes "distinct (map get_id (items book))"
    and "i \<in> set (items book)" and "get_type i = ITEM_DOCUMENT"
  shows "count_list (List.map_filter (resolve book) sp) i
           = count_list (map entry_id sp) (get_id i)"
proof (induction sp)
  case Nil
  show ?case by simp
next
  case (Cons e sp)
  show ?case
  proof (cases "resolve book e")
    case None
    then have "entry_id e \<noteq> get_id i"
      using resolve_Some_iff [OF assms, of e] by auto
    with None Cons.IH show ?thesis by simp
  next
    case (Some j)
    show ?thesis
      using Some Cons.IH resolve_Some_iff [OF assms, of e] by auto
  qed
qed

lemma count_list_declared_other:
  "\<not> (i \<in> set (items book) \<and> get_type i = ITEM_DOCUMENT) \<Longrightarrow>
     count_list (List.map_filter (resolve book) sp) i = 0"
proof (induction sp)
  case Nil
  show ?case by simp
next
  case (Cons e sp)
  then show ?case
    by (cases "resolve book e") (auto dest: resolve_SomeD)
qed

lemma count_list_filter_distinct:
  "distinct xs \<Longrightarrow> count_list (filter P xs) i = (if i \<in> set xs \<and> P i then 1 else 0)"
  by (induction xs) auto

lemma spine_loop_append:
  "spine_loop book (xs @ ys) st = spine_loop book ys (spine_loop book xs st)"
proof (induction xs arbitrary: st)
  case Nil
  show ?case by simp
next
  case (Cons x xs)
  show ?case
    by (cases st) (simp add: Cons.IH Let_def split: option.splits)
qed

lemma distinct_count_list: "distinct xs \<longleftrightarrow> (\<forall>x. count_list xs x \<le> 1)"
proof (induction xs)
  case Nil
  show ?case by simp
next
  case (Cons a xs)
  have "(\<forall>x. count_list (a # xs) x \<le> 1)
          \<longleftrightarrow> count_list xs a = 0 \<and> (\<forall>x. count_list xs x \<le> 1)"
    by (auto simp: le_Suc_eq)
  then show ?case
    using Cons.IH by (simp add: count_list_0_iff)
qed

text \<open>
  With unique item identifiers the fallback loop keeps exactly the documents whose
  identifier the spine does not mention.
\<close>

lemma iter_documents_in_order_unique_ids:
  assumes "distinct (map get_id (items book))"
  shows "iter_documents_in_order book =
     List.map_filter (resolve book) (spine book) @
     filter (\<lambda>i. get_type i = ITEM_DOCUMENT \<and> get_id i \<notin> entry_id ` set (spine book))
       (items book)"
proof -
  have "filter (\<lambda>i. get_id i \<notin> entry_id ` {e \<in> set (spine book). resolve book e \<noteq> None})
          (get_items_of_type book ITEM_DOCUMENT)
        = filter (\<lambda>i. get_type i = ITEM_DOCUMENT \<and> get_id i \<notin> entry_id ` set (spine book))
            (items book)"
    unfolding get_items_of_type_def filter_filter
    by (rule filter_cong [OF refl]) (use seen_iff_referenced [OF assms] in blast)
  then show ?thesis
    by (simp add: iter_documents_in_order_eq)
qed

lemma count_list_iter_documents_in_order:
  assumes "distinct (map get_id (items book))"
  shows "count_list (iter_documents_in_order book) i =
          (if i \<in> set (items book) \<and> get_type i = ITEM_DOCUMENT
           then max 1 (count_list (map entry_id (spine book)) (get_id i)) else 0)"
proof (cases "i \<in> set (items book) \<and> get_type i = ITEM_DOCUMENT")
  case True
  then have i: "i \<in> set (items book)" "get_type i = ITEM_DOCUMENT" by auto
  have d: "distinct (items book)"
    using assms by (rule distinct_map [THEN iffD1, THEN conjunct1])
  have "get_id i \<in> entry_id ` set (spine book) \<longleftrightarrow>
          count_list (map entry_id (spine book)) (get_id i) \<noteq> 0"
    by (simp add: count_list_0_iff)
  then show ?thesis
    using i count_list_declared [OF assms i, of "spine book"]
    by (auto simp: iter_documents_in_order_unique_ids [OF assms]
          count_list_filter_distinct [OF d] max_def)
next
  case False
  have d: "distinct (items book)"
    using assms by (rule distinct_map [THEN iffD1, THEN conjunct1])
  show ?thesis
    using False count_list_declared_other [OF False, of "spine book"]
    by (auto simp: iter_documents_in_order_unique_ids [OF assms]
          count_list_filter_distinct [OF d])
qed

lemmas example_defs =
  pkg_abc_def pkg_twice_def pkg_skip_def docA_def docB_def docC_def css_def str_def
  iter_documents_in_order_def get_item_with_id_def get_items_of_type_def Let_def

subsection \<open>Spine completeness\<close>

text \<open>
  Claim C1, as the code has it. The claim says that every document of the package is
  emitted exactly once whatever the spine holds. The first loop never consults
  \<open>seen_ids\<close>, so a document that the spine references twice is emitted twice: the
  statement fails at \<open>pkg_twice\<close>.
\<close>

theorem spine_duplicate_counterexample:
  "docA \<in> set (items pkg_twice) \<and> get_type docA = ITEM_DOCUMENT \<and>
   distinct (map get_id (items pkg_twice)) \<and>
   iter_documents_in_order pkg_twice = [docA, docA] \<and>
   count_list (iter_documents_in_order pkg_twice) docA = 2"
  by (simp add: example_defs)

text \<open>
  Claim C1, amended: in a package whose item identifiers are unique, the resolver emits
  the document-type items and nothing else, none is omitted, and a document is emitted
  as many times as the spine names its identifier, once when the spine does not name
  it. So every document appears exactly once when no identifier occurs twice in the
  spine.
\<close>

theorem spine_completeness:
  assumes "distinct (map get_id (items book))"
  shows "set (iter_documents_in_order book) = {i \<in> set (items book). get_type i = ITEM_DOCUMENT}
    \<and> (\<forall>i. count_list (iter_documents_in_order book) i =
          (if i \<in> set (items book) \<and> get_type i = ITEM_DOCUMENT
           then max 1 (count_list (map entry_id (spine book)) (get_id i)) else 0))
    \<and> (distinct (map entry_id (spine book)) \<longrightarrow> distinct (iter_documents_in_order book))"
proof -
  note cnt = count_list_iter_documents_in_order [OF assms]
  have s: "set (iter_documents_in_order book)
             = {i \<in> set (items book). get_type i = ITEM_DOCUMENT}"
  proof -
    have "i \<in> set (iter_documents_in_order book)
            \<longleftrightarrow> i \<in> set (items book) \<and> get_type i = ITEM_DOCUMENT" for i
      using cnt [of i] count_list_0_iff [of "iter_documents_in_order book" i]
      by (auto split: if_splits simp: max_def)
    then show ?thesis by blast
  qed
  have "distinct (iter_documents_in_order book)" if sp: "distinct (map entry_id (spine book))"
  proof -
    have "count_list (map entry_id (spine book)) k \<le> 1" for k
      using sp by (simp add: distinct_count_list)
    then have "count_list (iter_documents_in_order book) i \<le> 1" for i
      using cnt [of i] by (simp add: max_def)
    then show ?thesis by (simp add: distinct_count_list)
  qed
  with cnt s show ?thesis by blast
qed

theorem spine_completeness_witness:
  "distinct (map get_id (items pkg_abc)) \<and> distinct (map entry_id (spine pkg_abc)) \<and>
   set (iter_documents_in_order pkg_abc) = {docA, docB, docC} \<and>
   count_list (iter_documents_in_order pkg_abc) docC = 1 \<and>
   distinct (iter_documents_in_order pkg_abc)"
proof -
  have ids: "distinct (map get_id (items pkg_abc))"
    by (simp add: example_defs)
  have sp: "distinct (map entry_id (spine pkg_abc))"
    by (simp add: example_defs)
  have docs: "{i \<in> set (items pkg_abc). get_type i = ITEM_DOCUMENT} = {docA, docB, docC}"
    by (auto simp: pkg_abc_def docA_def docB_def docC_def css_def)
  have c: "max 1 (count_list (map entry_id (spine pkg_abc)) (get_id docC)) = 1"
    by (simp add: example_defs)
  have inC: "docC \<in> set (items pkg_abc) \<and> get_type docC = ITEM_DOCUMENT"
    by (simp add: pkg_abc_def docC_def)
  from spine_completeness [OF ids] sp docs c inC ids show ?thesis
    by simp
qed

subsection \<open>Reading order\<close>

text \<open>
  Claim C4: the resolved sequence is the documents of the spine entries, in the order
  of the spine, followed by the documents whose identifier the spine does not
  reference, in the enumeration order of the package. The package of the example has
  spine \<open>[A, B]\<close> and the extra document \<open>C\<close>, and resolves to \<open>[A, B, C]\<close>.
\<close>

theorem spine_order_preserved:
  assumes "distinct (map get_id (items book))"
  shows "iter_documents_in_order book =
     List.map_filter (resolve book) (spine book) @
     filter (\<lambda>i. get_type i = ITEM_DOCUMENT \<and> get_id i \<notin> entry_id ` set (spine book))
       (items book)"
  using assms by (rule iter_documents_in_order_unique_ids)

theorem spine_order_preserved_witness:
  "distinct (map get_id (items pkg_abc)) \<and>
   List.map_filter (resolve pkg_abc) (spine pkg_abc) = [docA, docB] \<and>
   iter_documents_in_order pkg_abc = [docA, docB, docC]"
proof -
  have ids: "distinct (map get_id (items pkg_abc))"
    by (simp add: example_defs)
  have decl: "List.map_filter (resolve pkg_abc) (spine pkg_abc) = [docA, docB]"
    by (simp add: resolve_def example_defs)
  have rest: "filter (\<lambda>i. get_type i = ITEM_DOCUMENT \<and> get_id i \<notin> entry_id ` set (spine pkg_abc))
                (items pkg_abc) = [docC]"
    by (simp add: example_defs)
  from spine_order_preserved [OF ids] ids decl rest show ?thesis
    by simp
qed

subsection \<open>Skipped spine entries\<close>

text \<open>
  Claim C7: a spine entry whose identifier no item has, or whose item is not a document,
  emits nothing and leaves the rest of the run as it is: the resolver yields what it
  yields for the spine without that entry. The resolver has no failure branch, so no
  error is raised.
\<close>

theorem spine_skips_unresolved:
  assumes "case get_item_with_id book (entry_id e) of
             None \<Rightarrow> True | Some i \<Rightarrow> get_type i \<noteq> ITEM_DOCUMENT"
  shows "iter_documents_in_order (book\<lparr>spine := pre @ e # post\<rparr>)
           = iter_documents_in_order (book\<lparr>spine := pre @ post\<rparr>)"
proof -
  have "spine_loop book (e # post) st = spine_loop book post st" for st
    using assms by (cases st) (simp add: Let_def split: option.splits)
  then show ?thesis
    by (simp add: iter_documents_in_order_def spine_loop_append)
qed

theorem spine_skips_unresolved_witness:
  "get_item_with_id pkg_skip (entry_id (Bare (str ''missing''))) = None \<and>
   iter_documents_in_order
     (pkg_skip\<lparr>spine := [Bare (str ''A''), Bare (str ''css'')] @ Bare (str ''missing'') # [Bare (str ''B'')]\<rparr>)
   = iter_documents_in_order
     (pkg_skip\<lparr>spine := [Bare (str ''A''), Bare (str ''css'')] @ [Bare (str ''B'')]\<rparr>) \<and>
   iter_documents_in_order pkg_skip = [docA, docB]"
proof -
  have missing: "get_item_with_id pkg_skip (entry_id (Bare (str ''missing''))) = None"
    by (simp add: example_defs)
  have run: "iter_documents_in_order pkg_skip = [docA, docB]"
    by (simp add: example_defs)
  from spine_skips_unresolved [of pkg_skip "Bare (str ''missing'')"
      "[Bare (str ''A''), Bare (str ''css'')]" "[Bare (str ''B'')]"] missing run
  show ?thesis by simp
qed

subsection \<open>The two shapes of a spine entry\<close>

text \<open>
  Claim C8: a bare identifier resolves as itself, a composite entry resolves as its
  first element, and exchanging one shape for the other anywhere in a spine does not
  change what the resolver yields.
\<close>

theorem spine_entry_shapes:
  "entry_id (Bare ident) = ident \<and> entry_id (Composite ident rest) = ident \<and>
   iter_documents_in_order (book\<lparr>spine := pre @ Composite ident rest # post\<rparr>)
     = iter_documents_in_order (book\<lparr>spine := pre @ Bare ident # post\<rparr>)"
proof -
  have "spine_loop book (pre @ Composite ident rest # post) st
          = spine_loop book (pre @ Bare ident # post) st" for st
    by (rule spine_loop_entry_ids) simp
  then show ?thesis
    by (simp add: iter_documents_in_order_def)
qed

section \<open>Properties of the normalizer\<close>

subsection \<open>Stripping and joining\<close>

lemma py_strip_Nil [simp]: "py_strip [] = []"
  by (simp add: py_strip_def)

lemma py_strip_fixed:
  "s \<noteq> [] \<Longrightarrow> \<not> py_isspace (hd s) \<Longrightarrow> \<not> py_isspace (last s) \<Longrightarrow> py_strip s = s"
proof -
  assume s: "s \<noteq> []" and h: "\<not> py_isspace (hd s)" and l: "\<not> py_isspace (last s)"
  have 1: "dropWhile py_isspace s = s"
    using s h by (cases s) auto
  have 2: "dropWhile py_isspace (rev s) = rev s"
    using s l by (cases "rev s") (auto simp: last_rev [symmetric] simp del: last_rev)
  show ?thesis by (simp add: py_strip_def 1 2)
qed

lemma py_strip_ends:
  assumes "py_strip s \<noteq> []"
  shows "\<not> py_isspace (hd (py_strip s)) \<and> \<not> py_isspace (last (py_strip s))"
proof -
  define u where "u = dropWhile py_isspace s"
  define v where "v = dropWhile py_isspace (rev u)"
  have t: "py_strip s = rev v" by (simp add: py_strip_def u_def v_def)
  with assms have v: "v \<noteq> []" by simp
  then have hv: "\<not> py_isspace (hd v)"
    unfolding v_def by (rule hd_dropWhile)
  have "rev u = takeWhile py_isspace (rev u) @ v"
    by (simp add: v_def)
  then have "last (rev u) = last v"
    using v by (metis last_appendR)
  moreover have "u \<noteq> []" using v by (auto simp: v_def)
  ultimately have "last v = hd u" by (simp add: last_rev)
  moreover have "\<not> py_isspace (hd u)"
    using \<open>u \<noteq> []\<close> unfolding u_def by (rule hd_dropWhile)
  ultimately show ?thesis
    using hv v by (simp add: t hd_rev last_rev)
qed

lemma py_strip_idem: "py_strip (py_strip s) = py_strip s"
  by (cases "py_strip s = []") (simp_all add: py_strip_fixed py_strip_ends)

lemma set_py_strip: "set (py_strip s) \<subseteq> set s"
proof -
  have "set (py_strip s) \<subseteq> set (rev (dropWhile py_isspace s))"
    unfolding py_strip_def set_rev by (auto dest: set_dropWhileD)
  also have "\<dots> \<subseteq> set s" by (auto dest: set_dropWhileD)
  finally show ?thesis .
qed

lemma py_join_snoc: "xs \<noteq> [] \<Longrightarrow> py_join sep (xs @ [x]) = py_join sep xs @ sep @ x"
  by (induction sep xs rule: py_join.induct) auto

lemma py_join_Cons: "xs \<noteq> [] \<Longrightarrow> py_join sep (x # xs) = x @ sep @ py_join sep xs"
  by (cases xs) auto

lemma hd_py_join: "xs \<noteq> [] \<Longrightarrow> hd xs \<noteq> [] \<Longrightarrow> hd (py_join sep xs) = hd (hd xs)"
  by (induction sep xs rule: py_join.induct) auto

lemma py_join_eq_Nil: "xs \<noteq> [] \<Longrightarrow> hd xs \<noteq> [] \<Longrightarrow> py_join sep xs \<noteq> []"
  by (induction sep xs rule: py_join.induct) auto

lemma py_join_last_nonempty: "xs \<noteq> [] \<Longrightarrow> last xs \<noteq> [] \<Longrightarrow> py_join sep xs \<noteq> []"
  by (induction sep xs rule: py_join.induct) auto

lemma last_py_join: "xs \<noteq> [] \<Longrightarrow> last xs \<noteq> [] \<Longrightarrow> last (py_join sep xs) = last (last xs)"
proof (induction sep xs rule: py_join.induct)
  case (3 sep x y ys)
  then have "py_join sep (y # ys) \<noteq> []"
    by (intro py_join_last_nonempty) auto
  with 3 show ?case by simp
qed auto

lemma no_double_blank_snoc:
  "no_double_blank (xs @ [x]) \<longleftrightarrow> no_double_blank xs \<and> \<not> (xs \<noteq> [] \<and> last xs = [] \<and> x = [])"
  by (induction xs rule: no_double_blank.induct) auto

lemma no_double_blank_butlast: "no_double_blank xs \<Longrightarrow> no_double_blank (butlast xs)"
  by (induction xs rule: no_double_blank.induct) auto

lemma clean_loop_inv: "clean_inv st \<Longrightarrow> clean_inv (clean_loop ls st)"
proof (induction ls arbitrary: st)
  case Nil
  then show ?case by simp
next
  case (Cons l ls)
  obtain cleaned pb where st: "st = (cleaned, pb)" by (cases st)
  show ?case
  proof (cases "py_strip l = []")
    case True
    have "clean_inv (if cleaned \<noteq> [] \<and> \<not> pb then cleaned @ [[]] else cleaned, True)"
      using Cons.prems by (auto simp: clean_inv_def st no_double_blank_snoc hd_append)
    then show ?thesis
      using True by (simp add: st Cons.IH)
  next
    case False
    have "clean_inv (cleaned @ [py_strip l], False)"
      using Cons.prems False py_strip_ends [OF False]
      by (auto simp: clean_inv_def st no_double_blank_snoc hd_append)
    then show ?thesis
      using False by (simp add: st Cons.IH)
  qed
qed

lemma clean_loop_fixed:
  "no_double_blank cs \<Longrightarrow> \<forall>l \<in> set cs. py_strip l = l \<Longrightarrow>
   (cs \<noteq> [] \<and> hd cs = [] \<longrightarrow> acc \<noteq> [] \<and> \<not> pb) \<Longrightarrow>
   fst (clean_loop cs (acc, pb)) = acc @ cs"
proof (induction cs arbitrary: acc pb)
  case Nil
  show ?case by simp
next
  case (Cons l cs)
  have ndb: "no_double_blank cs"
    using Cons.prems(1) by (cases cs) auto
  have st: "\<forall>l \<in> set cs. py_strip l = l" and l: "py_strip l = l"
    using Cons.prems(2) by auto
  show ?case
  proof (cases "l = []")
    case True
    then have "cs \<noteq> [] \<longrightarrow> hd cs \<noteq> []"
      using Cons.prems(1) by (cases cs) auto
    then have "cs \<noteq> [] \<and> hd cs = [] \<longrightarrow> acc @ [[]] \<noteq> [] \<and> \<not> True"
      by blast
    with ndb st have "fst (clean_loop cs (acc @ [[]], True)) = (acc @ [[]]) @ cs"
      by (rule Cons.IH)
    then show ?thesis
      using True Cons.prems(3) by simp
  next
    case False
    have "cs \<noteq> [] \<and> hd cs = [] \<longrightarrow> acc @ [l] \<noteq> [] \<and> \<not> False"
      by simp
    with ndb st have "fst (clean_loop cs (acc @ [l], False)) = (acc @ [l]) @ cs"
      by (rule Cons.IH)
    then show ?thesis
      using False l by simp
  qed
qed

lemma clean_inv_init: "clean_inv ([], False)"
  by (simp add: clean_inv_def)

lemma clean_lines_inv: "clean_inv (clean_lines ls, snd (clean_loop ls ([], False)))"
  using clean_loop_inv [OF clean_inv_init, of ls] by (simp add: clean_lines_def)

lemma clean_inv_stripped: "clean_inv (c, pb) \<Longrightarrow> l \<in> set c \<Longrightarrow> py_strip l = l"
  by (cases "l = []") (auto simp: clean_inv_def py_strip_fixed)

lemma clean_lines_fixed:
  assumes "clean_inv (c, pb)"
  shows "clean_lines c = c"
proof -
  have "fst (clean_loop c ([], False)) = [] @ c"
  proof (rule clean_loop_fixed)
    show "no_double_blank c" using assms by (simp add: clean_inv_def)
    show "\<forall>l \<in> set c. py_strip l = l" using assms by (auto simp: clean_inv_stripped)
    show "c \<noteq> [] \<and> hd c = [] \<longrightarrow> [] \<noteq> [] \<and> \<not> False"
      using assms by (auto simp: clean_inv_def)
  qed
  then show ?thesis by (simp add: clean_lines_def)
qed

lemma clean_lines_idem: "clean_lines (clean_lines ls) = clean_lines ls"
  using clean_lines_inv by (rule clean_lines_fixed)

subsection \<open>Splitting into lines\<close>

lemma linebreak_isspace: "py_islinebreak c \<Longrightarrow> py_isspace c"
  by (auto simp: py_islinebreak_def py_isspace_def)

lemma linebreak_10 [simp]: "py_islinebreak 10"
  by (simp add: py_islinebreak_def)

lemma isspace_10 [simp]: "py_isspace 10"
  by (simp add: py_isspace_def)

lemma splitlines_from_plain:
  "\<forall>c \<in> set l. \<not> py_islinebreak c \<Longrightarrow>
     splitlines_from acc (l @ rest) = splitlines_from (acc @ l) rest"
  by (induction l arbitrary: acc) auto

lemma splitlines_from_newline:
  "splitlines_from acc (10 # rest) = acc # splitlines_from [] rest"
  by simp

lemma splitlines_from_join:
  "ls \<noteq> [] \<Longrightarrow> last ls \<noteq> [] \<Longrightarrow> \<forall>l \<in> set ls. \<forall>c \<in> set l. \<not> py_islinebreak c \<Longrightarrow>
     splitlines_from acc (py_join [10] ls) = (acc @ hd ls) # tl ls"
proof (induction "[10::nat]" ls arbitrary: acc rule: py_join.induct)
  case 1
  then show ?case by simp
next
  case (2 x)
  then show ?case
    using splitlines_from_plain [of x acc "[]"] by simp
next
  case (3 x y ys)
  have "splitlines_from acc (x @ 10 # py_join [10] (y # ys))
          = splitlines_from (acc @ x) (10 # py_join [10] (y # ys))"
    using 3 by (intro splitlines_from_plain) simp
  also have "\<dots> = (acc @ x) # splitlines_from [] (py_join [10] (y # ys))"
    by (rule splitlines_from_newline)
  also have "splitlines_from [] (py_join [10] (y # ys)) = ([] @ hd (y # ys)) # tl (y # ys)"
    using 3 by (intro "3.hyps") auto
  finally show ?case by simp
qed

lemma py_splitlines_join:
  assumes "ls = [] \<or> last ls \<noteq> []" and "\<forall>l \<in> set ls. \<forall>c \<in> set l. \<not> py_islinebreak c"
  shows "py_splitlines (py_join [10] ls) = ls"
proof (cases "ls = []")
  case True
  then show ?thesis by (simp add: py_splitlines_def)
next
  case False
  with assms show ?thesis
    by (simp add: py_splitlines_def splitlines_from_join)
qed

lemma splitlines_from_plain_lines:
  "\<forall>c \<in> set acc. \<not> py_islinebreak c \<Longrightarrow>
     \<forall>l \<in> set (splitlines_from acc s). \<forall>c \<in> set l. \<not> py_islinebreak c"
proof (induction acc s rule: splitlines_from.induct)
  case (1 line)
  then show ?case by simp
next
  case (2 line c cs)
  show ?case
  proof (cases "py_islinebreak c")
    case True
    define rest where "rest = (if c = 13 \<and> cs \<noteq> [] \<and> hd cs = 10 then tl cs else cs)"
    have "\<forall>l \<in> set (splitlines_from [] rest). \<forall>c \<in> set l. \<not> py_islinebreak c"
      unfolding rest_def by (rule "2.IH"(1) [OF True]) simp
    moreover have "splitlines_from line (c # cs) = line # splitlines_from [] rest"
      using True by (simp add: rest_def)
    ultimately show ?thesis
      using "2.prems" by simp
  next
    case False
    have "\<forall>l \<in> set (splitlines_from (line @ [c]) cs). \<forall>c \<in> set l. \<not> py_islinebreak c"
      by (rule "2.IH"(2) [OF False]) (use False "2.prems" in auto)
    moreover have "splitlines_from line (c # cs) = splitlines_from (line @ [c]) cs"
      using False by simp
    ultimately show ?thesis by simp
  qed
qed

lemma py_splitlines_plain:
  "l \<in> set (py_splitlines s) \<Longrightarrow> c \<in> set l \<Longrightarrow> \<not> py_islinebreak c"
  using splitlines_from_plain_lines [of "[]" s] by (simp add: py_splitlines_def)

lemma clean_loop_chars:
  "l \<in> set (fst (clean_loop ls (acc, pb))) \<Longrightarrow> c \<in> set l \<Longrightarrow>
     (\<exists>l' \<in> set acc \<union> set ls. c \<in> set l')"
proof (induction ls arbitrary: acc pb)
  case Nil
  then show ?case by auto
next
  case (Cons x ls)
  show ?case
  proof (cases "py_strip x = []")
    case True
    then have "l \<in> set (fst (clean_loop ls (if acc \<noteq> [] \<and> \<not> pb then acc @ [[]] else acc, True)))"
      using Cons.prems(1) by simp
    from Cons.IH [OF this Cons.prems(2)] show ?thesis
      by (auto split: if_splits)
  next
    case False
    then have "l \<in> set (fst (clean_loop ls (acc @ [py_strip x], False)))"
      using Cons.prems(1) by simp
    from Cons.IH [OF this Cons.prems(2)] show ?thesis
      using set_py_strip [of x] by auto
  qed
qed

lemma clean_lines_plain:
  assumes "\<forall>l \<in> set ls. \<forall>c \<in> set l. \<not> py_islinebreak c"
    and "l \<in> set (clean_lines ls)" and "c \<in> set l"
  shows "\<not> py_islinebreak c"
  using clean_loop_chars [of l ls "[]" False c] assms by (auto simp: clean_lines_def)

subsection \<open>The loop and the final strip\<close>

lemma py_strip_trailing_newline:
  assumes "s \<noteq> []" "\<not> py_isspace (hd s)" "\<not> py_isspace (last s)"
  shows "py_strip (s @ [10]) = s"
proof -
  have 1: "dropWhile py_isspace (s @ [10]) = s @ [10]"
    using assms by (cases s) auto
  have 2: "dropWhile py_isspace (rev s) = rev s"
    using assms by (cases "rev s") (auto simp: last_rev [symmetric] simp del: last_rev)
  show ?thesis by (simp add: py_strip_def 1 2)
qed

lemma clean_inv_ends:
  assumes "clean_inv (c, pb)" "c \<noteq> []" "last c \<noteq> []"
  shows "py_join sep c \<noteq> [] \<and> \<not> py_isspace (hd (py_join sep c)) \<and> \<not> py_isspace (last (py_join sep c))"
proof -
  have h: "hd c \<noteq> []" using assms by (simp add: clean_inv_def)
  have "hd c \<in> set c" "last c \<in> set c" using assms by simp_all
  then have "\<not> py_isspace (hd (hd c))" "\<not> py_isspace (last (last c))"
    using assms h by (auto simp: clean_inv_def)
  then show ?thesis
    using assms h by (simp add: hd_py_join last_py_join py_join_eq_Nil)
qed

lemma clean_inv_snoc_blank:
  assumes "clean_inv (b @ [[]], pb)"
  shows "b \<noteq> [] \<and> last b \<noteq> [] \<and> clean_inv (b, False)"
proof -
  have b: "b \<noteq> []"
    using assms by (cases b) (auto simp: clean_inv_def)
  moreover have "last b \<noteq> []"
    using assms b by (simp add: clean_inv_def no_double_blank_snoc)
  moreover have "clean_inv (b, False)"
    using assms b by (auto simp: clean_inv_def no_double_blank_snoc)
  ultimately show ?thesis by blast
qed

lemma clean_inv_kept:
  assumes "clean_inv (c, pb)"
  shows "clean_inv (kept_lines c, False)"
proof (cases "c \<noteq> [] \<and> last c = []")
  case False
  then show ?thesis using assms by (auto simp: kept_lines_def clean_inv_def)
next
  case True
  then obtain b where c: "c = b @ [[]]"
    by (metis append_butlast_last_id)
  show ?thesis
    using clean_inv_snoc_blank [of b pb] assms by (simp add: c kept_lines_def)
qed

lemma strip_join_cleaned:
  assumes "clean_inv (c, pb)"
  shows "py_strip (py_join [10] c) = py_join [10] (kept_lines c)"
proof (cases "c = []")
  case True
  then show ?thesis by (simp add: kept_lines_def)
next
  case ne: False
  show ?thesis
  proof (cases "last c = []")
    case False
    then show ?thesis
      using clean_inv_ends [OF assms ne False, of "[10]"]
      by (simp add: kept_lines_def py_strip_fixed)
  next
    case True
    then obtain b where c: "c = b @ [[]]"
      using ne by (metis append_butlast_last_id)
    have b: "b \<noteq> []" "last b \<noteq> []" "clean_inv (b, False)"
      using clean_inv_snoc_blank [of b pb] assms by (simp_all add: c)
    have "py_join [10] (b @ [[]]) = py_join [10] b @ [10]"
      using py_join_snoc [OF b(1), of "[10]" "[]"] by simp
    then show ?thesis
      using clean_inv_ends [OF b(3) b(1) b(2), of "[10]"]
      by (simp add: c kept_lines_def py_strip_trailing_newline)
  qed
qed

lemma kept_lines_fixed: "clean_inv (c, False) \<Longrightarrow> kept_lines c = c"
  by (auto simp: kept_lines_def clean_inv_def)

lemma filter_kept_lines: "filter (\<lambda>l. l \<noteq> []) (kept_lines c) = filter (\<lambda>l. l \<noteq> []) c"
proof (cases "c \<noteq> [] \<and> last c = []")
  case True
  then obtain b where c: "c = b @ [[]]"
    by (metis append_butlast_last_id)
  show ?thesis by (simp add: c kept_lines_def)
next
  case False
  then show ?thesis by (auto simp: kept_lines_def)
qed

lemma clean_loop_content:
  "filter (\<lambda>l. l \<noteq> []) (fst (clean_loop ls (acc, pb)))
     = filter (\<lambda>l. l \<noteq> []) acc @ map py_strip (filter (\<lambda>l. py_strip l \<noteq> []) ls)"
  by (induction ls arbitrary: acc pb) (auto simp: Let_def)

lemma clean_loop_append: "clean_loop (xs @ ys) st = clean_loop ys (clean_loop xs st)"
proof (induction xs arbitrary: st)
  case Nil
  show ?case by simp
next
  case (Cons x xs)
  show ?case by (cases st) (simp add: Cons.IH Let_def)
qed

lemma clean_loop_blanks:
  "bs \<noteq> [] \<Longrightarrow> \<forall>b \<in> set bs. py_strip b = [] \<Longrightarrow>
     clean_loop bs (c, pb) = (if c \<noteq> [] \<and> \<not> pb then c @ [[]] else c, True)"
proof (induction bs arbitrary: c pb)
  case Nil
  then show ?case by simp
next
  case (Cons b bs)
  show ?case
  proof (cases "bs = []")
    case True
    then show ?thesis using Cons.prems by simp
  next
    case False
    then show ?thesis using Cons.prems by (simp add: Cons.IH)
  qed
qed

lemma clean_lines_blank_run:
  assumes "bs \<noteq> []" "\<forall>b \<in> set bs. py_strip b = []"
  shows "clean_lines (xs @ bs @ ys) = clean_lines (xs @ [] # ys)"
proof -
  obtain c pb where st: "clean_loop xs ([], False) = (c, pb)"
    by (cases "clean_loop xs ([], False)")
  have "clean_loop bs (c, pb) = clean_loop [[]] (c, pb)"
    using clean_loop_blanks [OF assms] by simp
  then have "clean_loop (xs @ bs @ ys) ([], False) = clean_loop (xs @ [[]] @ ys) ([], False)"
    by (simp only: clean_loop_append st)
  then show ?thesis by (simp add: clean_lines_def)
qed

text \<open>What the normalizer returns, line by line.\<close>

lemma normalize_text_lines:
  fixes raw :: pystr
  defines "ls \<equiv> kept_lines (clean_lines (py_splitlines raw))"
  shows "normalize_text raw = py_join [10] ls"
    and "py_splitlines (normalize_text raw) = ls"
    and "clean_inv (ls, False)"
    and "clean_lines ls = ls"
    and "filter (\<lambda>l. l \<noteq> []) ls = map py_strip (filter (\<lambda>l. py_strip l \<noteq> []) (py_splitlines raw))"
proof -
  have inv: "clean_inv (clean_lines (py_splitlines raw), snd (clean_loop (py_splitlines raw) ([], False)))"
    by (rule clean_lines_inv)
  show t: "normalize_text raw = py_join [10] ls"
    unfolding normalize_text_def ls_def by (rule strip_join_cleaned [OF inv])
  show k: "clean_inv (ls, False)"
    unfolding ls_def by (rule clean_inv_kept [OF inv])
  have plain: "\<forall>l \<in> set ls. \<forall>c \<in> set l. \<not> py_islinebreak c"
  proof (intro ballI)
    fix l c assume "l \<in> set ls" "c \<in> set l"
    then have "l \<in> set (clean_lines (py_splitlines raw))"
      by (auto simp: ls_def kept_lines_def dest: in_set_butlastD split: if_splits)
    with \<open>c \<in> set l\<close> show "\<not> py_islinebreak c"
      using clean_lines_plain [of "py_splitlines raw" l c] py_splitlines_plain [of _ raw] by blast
  qed
  have "ls = [] \<or> last ls \<noteq> []"
    using k by (auto simp: clean_inv_def)
  then show "py_splitlines (normalize_text raw) = ls"
    unfolding t using plain by (rule py_splitlines_join)
  show "clean_lines ls = ls"
    using k by (rule clean_lines_fixed)
  show "filter (\<lambda>l. l \<noteq> []) ls = map py_strip (filter (\<lambda>l. py_strip l \<noteq> []) (py_splitlines raw))"
    unfolding ls_def filter_kept_lines clean_lines_def by (simp add: clean_loop_content)
qed

lemma normalize_text_idem: "normalize_text (normalize_text raw) = normalize_text raw"
proof -
  define ls where "ls = kept_lines (clean_lines (py_splitlines raw))"
  have "normalize_text (normalize_text raw) = py_strip (py_join [10] (clean_lines ls))"
    by (simp add: normalize_text_def [of "normalize_text raw"] normalize_text_lines(2) ls_def)
  also have "\<dots> = py_strip (py_join [10] ls)"
    by (simp add: ls_def normalize_text_lines(4))
  also have "\<dots> = py_join [10] (kept_lines ls)"
    unfolding ls_def by (rule strip_join_cleaned [OF normalize_text_lines(3)])
  also have "\<dots> = py_join [10] ls"
    unfolding ls_def by (simp add: kept_lines_fixed [OF normalize_text_lines(3)])
  finally show ?thesis
    by (simp add: ls_def normalize_text_lines(1))
qed

subsection \<open>The example of the specification\<close>

lemma hello_world_raw:
  "get_text [10] (map set_spacer_string hello_world) = str ''Hello'' @ [10, 10, 10] @ str ''World''"
  by (simp add: hello_world_def str_def get_text_def)

lemma hello_world_lines:
  "py_splitlines (str ''Hello'' @ [10, 10, 10] @ str ''World'') = [str ''Hello'', [], [], str ''World'']"
  by (simp add: py_splitlines_def str_def py_islinebreak_def)

lemma hello_world_cleaned:
  "clean_lines [str ''Hello'', [], [], str ''World''] = [str ''Hello'', [], str ''World'']"
  by (simp add: clean_lines_def str_def py_strip_def py_isspace_def)

lemma hello_world_joined:
  "py_strip (py_join [10] [str ''Hello'', [], str ''World'']) = str ''Hello'' @ [10, 10] @ str ''World''"
  by (simp add: str_def py_strip_def py_isspace_def)

text \<open>
  Claim C5: for the tree of \<open><p>Hello</p><div class="empty-line"></div><p>World</p>\<close>
  the normalizer returns \<open>"Hello\n\nWorld"\<close>: the marker element contributes the one
  blank line between the two paragraphs.
\<close>

theorem hello_world_normalized:
  "clean_text_preserving_gaps hello_world = str ''Hello'' @ [10, 10] @ str ''World'' \<and>
   clean_text_preserving_gaps hello_world = str ''Hello\<newline>\<newline>World''"
proof -
  have "clean_text_preserving_gaps hello_world = str ''Hello'' @ [10, 10] @ str ''World''"
    by (simp only: clean_text_preserving_gaps_def normalize_text_def hello_world_raw
          hello_world_lines hello_world_cleaned hello_world_joined)
  moreover have "str ''Hello'' @ [10, 10] @ str ''World'' = str ''Hello\<newline>\<newline>World''"
    by (simp add: str_def)
  ultimately show ?thesis by simp
qed

subsection \<open>Blank lines of the returned text\<close>

lemma spaced_raw:
  "get_text [10] (map set_spacer_string spaced)
     = [10, 32, 32, 10, 32, 111, 110, 101, 32, 10, 10, 10, 9, 13, 10, 10, 116, 119, 111, 10, 10]"
  by (simp add: spaced_def str_def get_text_def)

lemma spaced_lines:
  "py_splitlines [10, 32, 32, 10, 32, 111, 110, 101, 32, 10, 10, 10, 9, 13, 10, 10, 116, 119, 111, 10, 10]
     = [[], [32, 32], [32, 111, 110, 101, 32], [], [], [9], [], [116, 119, 111], []]"
  by (simp add: py_splitlines_def py_islinebreak_def)

lemma spaced_cleaned:
  "clean_lines [[], [32, 32], [32, 111, 110, 101, 32], [], [], [9], [], [116, 119, 111], []]
     = [[111, 110, 101], [], [116, 119, 111], []]"
  by (simp add: clean_lines_def py_strip_def py_isspace_def)

lemma spaced_joined:
  "py_strip (py_join [10] [[111, 110, 101], [], [116, 119, 111], []]) = [111, 110, 101, 10, 10, 116, 119, 111]"
  by (simp add: py_strip_def py_isspace_def)

lemma spaced_text:
  "clean_text_preserving_gaps spaced = [111, 110, 101, 10, 10, 116, 119, 111]"
  by (simp only: clean_text_preserving_gaps_def normalize_text_def spaced_raw spaced_lines
        spaced_cleaned spaced_joined)

lemma spaced_text_lines:
  "py_splitlines [111, 110, 101, 10, 10, 116, 119, 111] = [[111, 110, 101], [], [116, 119, 111]]"
  by (simp add: py_splitlines_def py_islinebreak_def)

text \<open>
  Claim C2: for every document tree, the returned text is the join of its lines, its
  first and its last line are not empty, and no two neighbouring lines are empty; the
  text neither starts nor ends with whitespace. Its non-empty lines are the stripped
  non-blank raw lines in their order, and the loop treats a run of one or more blank raw
  lines as one blank line, so a run of blank raw lines leaves at most one empty line.
\<close>

theorem normalizer_blank_lines:
  fixes sp :: soup
  defines "raw \<equiv> get_text [10] (map set_spacer_string sp)"
  defines "text \<equiv> clean_text_preserving_gaps sp"
  shows "py_join [10] (py_splitlines text) = text
    \<and> (py_splitlines text \<noteq> [] \<longrightarrow> hd (py_splitlines text) \<noteq> [] \<and> last (py_splitlines text) \<noteq> [])
    \<and> no_double_blank (py_splitlines text)
    \<and> (text \<noteq> [] \<longrightarrow> \<not> py_isspace (hd text) \<and> \<not> py_isspace (last text))
    \<and> filter (\<lambda>l. l \<noteq> []) (py_splitlines text)
        = map py_strip (filter (\<lambda>l. py_strip l \<noteq> []) (py_splitlines raw))
    \<and> (\<forall>xs bs ys. bs \<noteq> [] \<and> (\<forall>b \<in> set bs. py_strip b = [])
          \<longrightarrow> clean_lines (xs @ bs @ ys) = clean_lines (xs @ [] # ys))"
proof -
  define ls where "ls = kept_lines (clean_lines (py_splitlines raw))"
  have tx: "text = normalize_text raw"
    by (simp add: text_def raw_def clean_text_preserving_gaps_def)
  have j: "text = py_join [10] ls" and l: "py_splitlines text = ls"
    and inv: "clean_inv (ls, False)"
    and content: "filter (\<lambda>l. l \<noteq> []) ls
        = map py_strip (filter (\<lambda>l. py_strip l \<noteq> []) (py_splitlines raw))"
    unfolding tx ls_def by (rule normalize_text_lines)+
  have edges: "hd ls \<noteq> [] \<and> last ls \<noteq> []" if "ls \<noteq> []"
    using inv that by (auto simp: clean_inv_def)
  have ends: "\<not> py_isspace (hd text) \<and> \<not> py_isspace (last text)" if "text \<noteq> []"
  proof -
    have ne: "ls \<noteq> []" using that j by auto
    show ?thesis
      using clean_inv_ends [OF inv ne, of "[10]"] edges [OF ne] by (simp add: j)
  qed
  have ndb: "no_double_blank ls"
    using inv by (simp add: clean_inv_def)
  show ?thesis
    using j l edges ends ndb content clean_lines_blank_run by auto
qed

theorem normalizer_blank_lines_witness:
  "clean_text_preserving_gaps spaced = str ''one'' @ [10, 10] @ str ''two'' \<and>
   py_splitlines (clean_text_preserving_gaps spaced) = [str ''one'', [], str ''two''] \<and>
   hd (py_splitlines (clean_text_preserving_gaps spaced)) \<noteq> [] \<and>
   last (py_splitlines (clean_text_preserving_gaps spaced)) \<noteq> [] \<and>
   no_double_blank (py_splitlines (clean_text_preserving_gaps spaced)) \<and>
   \<not> py_isspace (hd (clean_text_preserving_gaps spaced)) \<and>
   \<not> py_isspace (last (clean_text_preserving_gaps spaced)) \<and>
   clean_lines ([str ''a''] @ [[32], [9, 32]] @ [str ''b'']) = clean_lines ([str ''a''] @ [] # [str ''b''])"
proof -
  have run: "[[32::nat], [9, 32]] \<noteq> [] \<and> (\<forall>b \<in> set [[32::nat], [9, 32]]. py_strip b = [])"
    by (simp add: py_strip_def py_isspace_def)
  have inst: "clean_lines ([str ''a''] @ [[32], [9, 32]] @ [str ''b''])
                = clean_lines ([str ''a''] @ [] # [str ''b''])"
    using normalizer_blank_lines [of spaced] run by blast
  have t: "clean_text_preserving_gaps spaced = str ''one'' @ [10, 10] @ str ''two''"
    by (simp add: spaced_text str_def)
  have ls: "py_splitlines (clean_text_preserving_gaps spaced) = [str ''one'', [], str ''two'']"
    by (simp add: spaced_text spaced_text_lines str_def)
  have ne: "str ''one'' @ [10, 10] @ str ''two'' \<noteq> []"
    by (simp add: str_def)
  from normalizer_blank_lines [of spaced] t ls ne inst show ?thesis
    by (simp add: str_def)
qed

subsection \<open>Idempotence\<close>

text \<open>
  Claim C3: cleaning the cleaned lines again changes nothing, and so does normalizing
  the normalized text again, also as a document that holds the text as its one string.
\<close>

theorem normalizer_idempotent:
  "clean_lines (clean_lines ls) = clean_lines ls \<and>
   normalize_text (normalize_text raw) = normalize_text raw \<and>
   clean_text_preserving_gaps [NavigableString (clean_text_preserving_gaps sp)]
     = clean_text_preserving_gaps sp"
proof -
  have "get_text [10] (map set_spacer_string [NavigableString t]) = t" for t
    by (simp add: get_text_def)
  then show ?thesis
    by (simp add: clean_lines_idem normalize_text_idem clean_text_preserving_gaps_def)
qed

section \<open>Properties of the conversion\<close>

lemma text_loop_eq:
  "text_loop e xs acc
     = acc @ map (\<lambda>item. clean_text_preserving_gaps (html_parser e (get_content item))) xs"
  by (induction xs arbitrary: acc) (simp_all add: Let_def)

lemma document_text_eq:
  "document_text e book = py_join [10, 10]
     (map (\<lambda>item. clean_text_preserving_gaps (html_parser e (get_content item)))
        (iter_documents_in_order book))"
  by (simp add: document_text_def text_loop_eq)

lemma convert_loop_readable:
  assumes "\<forall>n \<in> set fs. \<exists>book. read_epub e (path_join ind n) = Inr book"
  shows "convert_loop e ind outd fs w =
     Inr (w\<lparr>files := fold (\<lambda>n f. f(target_txt outd n := converted e (path_join ind n))) fs (files w),
            stdout := stdout w @ map (\<lambda>n. Converted (path_join ind n) (target_txt outd n)) fs\<rparr>)"
  using assms
proof (induction fs arbitrary: w)
  case Nil
  show ?case by simp
next
  case (Cons n fs)
  then obtain book where b: "read_epub e (path_join ind n) = Inr book" by auto
  have rest: "\<forall>n \<in> set fs. \<exists>book. read_epub e (path_join ind n) = Inr book"
    using Cons.prems by simp
  have c: "converted e (path_join ind n) = Some (document_text e book)"
    by (simp add: converted_def b)
  have step: "convert_loop e ind outd (n # fs) w =
      convert_loop e ind outd fs
        (w\<lparr>files := (files w)(target_txt outd n := converted e (path_join ind n)),
           stdout := stdout w @ [Converted (path_join ind n) (target_txt outd n)]\<rparr>)"
    by (simp add: epub_to_txt_def b c)
  show ?case
    unfolding step Cons.IH [OF rest] by (simp add: fun_upd_def)
qed

lemma fold_upd_lookup:
  "fold (\<lambda>n f. f(k n := v n)) fs m x
     = (if \<exists>n \<in> set fs. k n = x then v (last (filter (\<lambda>n. k n = x) fs)) else m x)"
proof (induction fs arbitrary: m)
  case Nil
  show ?case by simp
next
  case (Cons n fs)
  have step: "fold (\<lambda>n f. f(k n := v n)) (n # fs) m x
                = fold (\<lambda>n f. f(k n := v n)) fs (m(k n := v n)) x"
    by simp
  show ?case
  proof (cases "\<exists>n' \<in> set fs. k n' = x")
    case True
    then have "filter (\<lambda>n. k n = x) fs \<noteq> []"
      by (simp add: filter_empty_conv)
    then show ?thesis
      unfolding step Cons.IH using True by simp
  next
    case False
    then have "filter (\<lambda>n. k n = x) fs = []"
      by (simp add: filter_empty_conv)
    then show ?thesis
      unfolding step Cons.IH using False by simp
  qed
qed

lemma fold_upd_dom:
  "\<forall>n \<in> set fs. v n \<noteq> None \<Longrightarrow>
     dom (fold (\<lambda>n f. f(k n := v n)) fs m) = dom m \<union> k ` set fs"
proof (induction fs arbitrary: m)
  case Nil
  show ?case by simp
next
  case (Cons n fs)
  then obtain y where "v n = Some y" by auto
  then show ?case using Cons by (auto simp: Cons.IH)
qed

lemma target_txt_eq_iff: "target_txt outd n1 = target_txt outd n2 \<longleftrightarrow> py_stem n1 = py_stem n2"
  by (simp add: target_txt_def path_join_def)

lemma lower_epub:
  assumes "py_lower x = str ''.epub''"
  shows "\<exists>c1 c2 c3 c4. x = [46, c1, c2, c3, c4] \<and> c1 \<noteq> 46 \<and> c2 \<noteq> 46 \<and> c3 \<noteq> 46 \<and> c4 \<noteq> 46"
proof -
  from assms obtain c0 c1 c2 c3 c4 where x: "x = [c0, c1, c2, c3, c4]"
    by (auto simp: py_lower_def str_def map_eq_Cons_conv)
  from assms show ?thesis
    unfolding x by (auto simp: py_lower_def str_def split: if_splits)
qed

lemma stem_suffix_epub:
  assumes "s \<noteq> []" "py_lower x = str ''.epub''"
  shows "py_stem (s @ x) = s \<and> py_suffix (s @ x) = x"
proof -
  from lower_epub [OF assms(2)] obtain c1 c2 c3 c4
    where x: "x = [46, c1, c2, c3, c4]" and c: "c1 \<noteq> 46" "c2 \<noteq> 46" "c3 \<noteq> 46" "c4 \<noteq> 46"
    by blast
  have "rfind_dot (s @ x) = Some (length s)"
    using c by (simp add: rfind_dot_def x)
  then show ?thesis
    using assms(1) by (simp add: py_stem_def py_suffix_def x)
qed

subsection \<open>Lines of joined blocks\<close>

lemma py_join_append:
  "xs \<noteq> [] \<Longrightarrow> ys \<noteq> [] \<Longrightarrow> py_join sep (xs @ ys) = py_join sep xs @ sep @ py_join sep ys"
proof (induction sep xs rule: py_join.induct)
  case (2 sep x)
  then show ?case by (simp add: py_join_Cons)
qed auto

lemma py_join_blocks:
  "\<forall>ls \<in> set lss. ls \<noteq> [] \<Longrightarrow>
     py_join [10, 10] (map (py_join [10]) lss) = py_join [10::nat] (py_join [[]] lss)"
proof (induction "[[]::nat list]" lss rule: py_join.induct)
  case 1
  show ?case by simp
next
  case (2 x)
  show ?case by simp
next
  case (3 x y ys)
  have ne: "py_join [[]] (y # ys) \<noteq> []"
    using 3(2) by (intro py_join_eq_Nil) auto
  have "py_join [10] (x @ [[]] @ py_join [[]] (y # ys))
          = py_join [10] x @ [10] @ py_join [10] ([[]] @ py_join [[]] (y # ys))"
    using 3(2) by (intro py_join_append) auto
  also have "py_join [10] ([[]] @ py_join [[]] (y # ys)) = [10] @ py_join [10] (py_join [[]] (y # ys))"
    using ne by (simp add: py_join_Cons)
  finally show ?case
    using 3 by simp
qed

lemma set_py_join_lines: "set (py_join [[]] lss) \<subseteq> insert [] (\<Union> (set ` set lss))"
  by (induction "[[]::'a list]" lss rule: py_join.induct) auto

lemma splitlines_joined_blocks:
  assumes "\<forall>b \<in> set blocks. b \<noteq> [] \<and> (\<exists>raw. b = normalize_text raw)"
  shows "py_splitlines (py_join [10, 10] blocks) = py_join [[]] (map py_splitlines blocks)"
proof -
  define lss where "lss = map py_splitlines blocks"
  have b: "py_join [10] (py_splitlines b) = b \<and> py_splitlines b \<noteq> []
             \<and> last (py_splitlines b) \<noteq> []" if "b \<in> set blocks" for b
  proof -
    from assms that obtain raw where r: "b = normalize_text raw" and ne: "b \<noteq> []" by blast
    have j: "py_join [10] (py_splitlines b) = b"
      unfolding r normalize_text_lines(2) by (rule normalize_text_lines(1) [symmetric])
    then have "py_splitlines b \<noteq> []" using ne by auto
    moreover have "clean_inv (py_splitlines b, False)"
      unfolding r normalize_text_lines(2) by (rule normalize_text_lines(3))
    ultimately show ?thesis using j by (auto simp: clean_inv_def)
  qed
  have blocks: "blocks = map (py_join [10]) lss"
    unfolding lss_def using b by (simp add: map_idI)
  have ne: "\<forall>ls \<in> set lss. ls \<noteq> []"
    using b by (auto simp: lss_def)
  have doc: "py_join [10, 10] blocks = py_join [10] (py_join [[]] lss)"
    unfolding blocks by (rule py_join_blocks [OF ne])
  have last: "py_join [[]] lss = [] \<or> last (py_join [[]] lss) \<noteq> []"
  proof (cases "lss = []")
    case True
    then show ?thesis by simp
  next
    case False
    then have "last lss \<in> set lss" by simp
    then obtain bb where bb: "bb \<in> set blocks" "last lss = py_splitlines bb"
      by (auto simp: lss_def)
    then have "last lss \<noteq> [] \<and> last (last lss) \<noteq> []"
      using b [OF bb(1)] by simp
    then show ?thesis
      using False by (simp add: last_py_join)
  qed
  have plain: "\<forall>l \<in> set (py_join [[]] lss). \<forall>c \<in> set l. \<not> py_islinebreak c"
  proof (intro ballI)
    fix l c assume l: "l \<in> set (py_join [[]] lss)" and c: "c \<in> set l"
    then obtain b where "b \<in> set blocks" "l \<in> set (py_splitlines b)"
      using set_py_join_lines [of lss] by (auto simp: lss_def)
    then show "\<not> py_islinebreak c"
      using c by (auto dest: py_splitlines_plain)
  qed
  show ?thesis
    unfolding doc lss_def [symmetric] using last plain by (rule py_splitlines_join)
qed

subsection \<open>The example packages as text\<close>

lemma paragraph_text:
  "clean_text_preserving_gaps (one_paragraph (str ''<p>a</p>'')) = str ''<p>a</p>''"
  "clean_text_preserving_gaps (one_paragraph (str ''<p>b</p>'')) = str ''<p>b</p>''"
  "clean_text_preserving_gaps (one_paragraph (str ''<p>c</p>'')) = str ''<p>c</p>''"
  by (simp_all add: clean_text_preserving_gaps_def one_paragraph_def get_text_def str_def
        normalize_text_def py_splitlines_def py_islinebreak_def clean_lines_def
        py_strip_def py_isspace_def)

lemma paragraph_lines:
  "py_splitlines (str ''<p>a</p>'') = [str ''<p>a</p>'']"
  "py_splitlines (str ''<p>b</p>'') = [str ''<p>b</p>'']"
  "py_splitlines (str ''<p>c</p>'') = [str ''<p>c</p>'']"
  by (simp_all add: str_def py_splitlines_def py_islinebreak_def)

lemma pkg_abc_order: "iter_documents_in_order pkg_abc = [docA, docB, docC]"
  by (simp add: example_defs)

lemma pkg_twice_order: "iter_documents_in_order pkg_twice = [docA, docA]"
  by (simp add: example_defs)

lemma pkg_skip_order: "iter_documents_in_order pkg_skip = [docA, docB]"
  by (simp add: example_defs)

lemma doc_contents:
  "get_content docA = str ''<p>a</p>''" "get_content docB = str ''<p>b</p>''"
  "get_content docC = str ''<p>c</p>''"
  by (simp_all add: docA_def docB_def docC_def)

subsection \<open>The converted document\<close>

text \<open>
  Claim C6: when the EPUB can be read, \<open>epub_to_txt\<close> writes to the destination the
  normalized text blocks, one for each resolved item in the resolved order, joined by two
  line breaks, and touches no other file; when no block is empty, the lines of the
  written text are the lines of the blocks with exactly one empty line between two
  consecutive blocks.
\<close>

theorem epub_to_txt_joins_blocks:
  fixes e :: env and book :: package
  defines "blocks \<equiv> map (\<lambda>item. clean_text_preserving_gaps (html_parser e (get_content item)))
                      (iter_documents_in_order book)"
  assumes "read_epub e epub_path = Inr book"
  shows "(\<exists>w'. epub_to_txt e epub_path txt_path w = Inr w'
            \<and> files w' txt_path = Some (py_join [10, 10] blocks)
            \<and> (\<forall>p. p \<noteq> txt_path \<longrightarrow> files w' p = files w p))
    \<and> length blocks = length (iter_documents_in_order book)
    \<and> ((\<forall>b \<in> set blocks. b \<noteq> [])
          \<longrightarrow> py_splitlines (py_join [10, 10] blocks) = py_join [[]] (map py_splitlines blocks))"
proof -
  have "document_text e book = py_join [10, 10] blocks"
    by (simp add: document_text_eq blocks_def)
  then have w: "\<exists>w'. epub_to_txt e epub_path txt_path w = Inr w'
            \<and> files w' txt_path = Some (py_join [10, 10] blocks)
            \<and> (\<forall>p. p \<noteq> txt_path \<longrightarrow> files w' p = files w p)"
    using assms(2) by (simp add: epub_to_txt_def)
  have "py_splitlines (py_join [10, 10] blocks) = py_join [[]] (map py_splitlines blocks)"
    if "\<forall>b \<in> set blocks. b \<noteq> []"
  proof (rule splitlines_joined_blocks)
    show "\<forall>b \<in> set blocks. b \<noteq> [] \<and> (\<exists>raw. b = normalize_text raw)"
      using that by (auto simp: blocks_def clean_text_preserving_gaps_def)
  qed
  with w show ?thesis by (simp add: blocks_def)
qed

theorem epub_to_txt_joins_blocks_witness:
  "read_epub env_batch (str ''in/a.EPUB'') = Inr pkg_abc \<and>
   (\<exists>w'. epub_to_txt env_batch (str ''in/a.EPUB'') (str ''a.txt'') world0 = Inr w' \<and>
      files w' (str ''a.txt'')
        = Some (str ''<p>a</p>'' @ [10, 10] @ str ''<p>b</p>'' @ [10, 10] @ str ''<p>c</p>'')) \<and>
   py_splitlines (str ''<p>a</p>'' @ [10, 10] @ str ''<p>b</p>'' @ [10, 10] @ str ''<p>c</p>'')
     = [str ''<p>a</p>'', [], str ''<p>b</p>'', [], str ''<p>c</p>'']"
proof -
  have r: "read_epub env_batch (str ''in/a.EPUB'') = Inr pkg_abc"
    by (simp add: env_batch_def)
  have p: "html_parser env_batch = one_paragraph"
    by (simp add: env_batch_def)
  have ne: "str ''<p>a</p>'' \<noteq> [] \<and> str ''<p>b</p>'' \<noteq> [] \<and> str ''<p>c</p>'' \<noteq> []"
    by (simp add: str_def)
  from epub_to_txt_joins_blocks [OF r, of "str ''a.txt''" world0] ne show ?thesis
    by (simp add: r p pkg_abc_order doc_contents paragraph_text paragraph_lines) blast
qed

subsection \<open>Batch mode\<close>

lemma convert_directory_readable:
  assumes "is_dir e d"
    and "\<forall>n \<in> set (epub_files e d). \<exists>book. read_epub e (path_join d n) = Inr book"
  shows "convert_directory e d outd w =
     Inr (w\<lparr>made_dirs := insert outd (made_dirs w),
            files := fold (\<lambda>n f. f(target_txt outd n := converted e (path_join d n)))
                       (epub_files e d) (files w),
            stdout := stdout w @
              (if epub_files e d = [] then [NoEpubFound d]
               else map (\<lambda>n. Converted (path_join d n) (target_txt outd n)) (epub_files e d))\<rparr>)"
proof (cases "epub_files e d = []")
  case True
  then show ?thesis using assms(1) by (simp add: convert_directory_def)
next
  case False
  then show ?thesis
    using assms(1) by (simp add: convert_directory_def Let_def convert_loop_readable [OF assms(2)])
qed

lemma readable_converted:
  "\<exists>book. read_epub e p = Inr book \<Longrightarrow> converted e p \<noteq> None"
  by (auto simp: converted_def)

lemma batch_names:
  "path_join (str ''in'') (str ''a.EPUB'') = str ''in/a.EPUB''"
  "path_join (str ''in'') (str ''a.epub'') = str ''in/a.epub''"
  "path_join (str ''in'') (str ''b.epub'') = str ''in/b.epub''"
  "target_txt (str ''out'') (str ''a.EPUB'') = str ''out/a.txt''"
  "target_txt (str ''out'') (str ''a.epub'') = str ''out/a.txt''"
  "target_txt (str ''out'') (str ''b.epub'') = str ''out/b.txt''"
  by (simp_all add: path_join_def target_txt_def py_stem_def rfind_dot_def str_def)

lemma batch_selected:
  "epub_files env_batch (str ''in'') = [str ''a.EPUB'', str ''b.epub'']"
  "epub_files env_case (str ''in'') = [str ''a.EPUB'', str ''a.epub'']"
  "epub_files env_subdir (str ''in'') = []"
  by (simp_all add: epub_files_def env_batch_def env_case_def env_subdir_def str_def
        py_suffix_def rfind_dot_def py_lower_def)

text \<open>
  Claim C9, as the code has it. The claim selects every entry whose extension is
  \<open>.epub\<close> in any letter case. The code also asks \<open>path.is_file()\<close>: a subdirectory
  named \<open>x.epub\<close> has the extension and is not selected.
\<close>

theorem subdirectory_counterexample:
  "\<lparr>entry_name = str ''x.epub'', is_file = False\<rparr> \<in> set (iterdir env_subdir (str ''in'')) \<and>
   py_lower (py_suffix (str ''x.epub'')) = str ''.epub'' \<and>
   str ''x.epub'' \<notin> set (epub_files env_subdir (str ''in''))"
  by (simp add: batch_selected) (simp add: env_subdir_def str_def py_suffix_def rfind_dot_def py_lower_def)

text \<open>
  Claim C9, amended: the entries selected are exactly the regular files whose suffix is
  \<open>.epub\<close> in any letter case, each once, in sorted order of their names. For an input
  directory with no such file the run prints the message and ends without error and
  without writing a file. Otherwise, when every selected file can be read, the files are
  converted in sorted order, each to the output directory under its stem followed by
  \<open>.txt\<close>, and exactly these files are written. The directory with \<open>b.epub\<close>,
  \<open>a.EPUB\<close> and \<open>notes.txt\<close> gives \<open>a.txt\<close> and \<open>b.txt\<close>.
\<close>

theorem batch_selection:
  "set (epub_files e d)
      = entry_name ` {p \<in> set (iterdir e d).
                        is_file p \<and> py_lower (py_suffix (entry_name p)) = str ''.epub''}
   \<and> length (epub_files e d)
      = length (filter (\<lambda>p. is_file p \<and> py_lower (py_suffix (entry_name p)) = str ''.epub'')
                  (iterdir e d))
   \<and> sorted (epub_files e d)
   \<and> (is_dir e d \<and> epub_files e d = [] \<longrightarrow>
        convert_directory e d outd w
          = Inr (w\<lparr>made_dirs := insert outd (made_dirs w), stdout := stdout w @ [NoEpubFound d]\<rparr>))
   \<and> (is_dir e d \<and> epub_files e d \<noteq> [] \<and>
        (\<forall>n \<in> set (epub_files e d). \<exists>book. read_epub e (path_join d n) = Inr book) \<longrightarrow>
        (\<exists>w'. convert_directory e d outd w = Inr w'
           \<and> stdout w' = stdout w @
                map (\<lambda>n. Converted (path_join d n) (path_join outd (py_stem n @ str ''.txt'')))
                  (epub_files e d)
           \<and> dom (files w') = dom (files w) \<union>
                (\<lambda>n. path_join outd (py_stem n @ str ''.txt'')) ` set (epub_files e d)))"
proof -
  have sel: "set (epub_files e d)
      = entry_name ` {p \<in> set (iterdir e d).
                        is_file p \<and> py_lower (py_suffix (entry_name p)) = str ''.epub''}"
    by (auto simp: epub_files_def)
  have len: "length (epub_files e d)
      = length (filter (\<lambda>p. is_file p \<and> py_lower (py_suffix (entry_name p)) = str ''.epub'')
                  (iterdir e d))"
    by (simp add: epub_files_def)
  have srt: "sorted (epub_files e d)"
    by (simp add: epub_files_def)
  have none: "convert_directory e d outd w
          = Inr (w\<lparr>made_dirs := insert outd (made_dirs w), stdout := stdout w @ [NoEpubFound d]\<rparr>)"
    if "is_dir e d" "epub_files e d = []"
    using that by (simp add: convert_directory_def)
  have some: "\<exists>w'. convert_directory e d outd w = Inr w'
           \<and> stdout w' = stdout w @
                map (\<lambda>n. Converted (path_join d n) (path_join outd (py_stem n @ str ''.txt'')))
                  (epub_files e d)
           \<and> dom (files w') = dom (files w) \<union>
                (\<lambda>n. path_join outd (py_stem n @ str ''.txt'')) ` set (epub_files e d)"
    if dir: "is_dir e d" and ne: "epub_files e d \<noteq> []"
      and rd: "\<forall>n \<in> set (epub_files e d). \<exists>book. read_epub e (path_join d n) = Inr book"
  proof -
    have "\<forall>n \<in> set (epub_files e d). converted e (path_join d n) \<noteq> None"
      using rd readable_converted by blast
    then have "dom (fold (\<lambda>n f. f(target_txt outd n := converted e (path_join d n)))
                       (epub_files e d) (files w))
                = dom (files w) \<union> target_txt outd ` set (epub_files e d)"
      by (rule fold_upd_dom)
    then show ?thesis
      using ne by (simp add: convert_directory_readable [OF dir rd] target_txt_def [abs_def])
  qed
  from sel len srt none some show ?thesis by blast
qed

theorem batch_selection_witness:
  "epub_files env_batch (str ''in'') = [str ''a.EPUB'', str ''b.epub''] \<and>
   (\<exists>w'. convert_directory env_batch (str ''in'') (str ''out'') world0 = Inr w' \<and>
      stdout w' = [Converted (str ''in/a.EPUB'') (str ''out/a.txt''),
                   Converted (str ''in/b.epub'') (str ''out/b.txt'')] \<and>
      dom (files w') = {str ''out/a.txt'', str ''out/b.txt''}) \<and>
   epub_files env_subdir (str ''in'') = [] \<and>
   convert_directory env_subdir (str ''in'') (str ''out'') world0
     = Inr (world0\<lparr>made_dirs := insert (str ''out'') (made_dirs world0),
                   stdout := stdout world0 @ [NoEpubFound (str ''in'')]\<rparr>)"
proof -
  have dir: "is_dir env_batch (str ''in'')" "is_dir env_subdir (str ''in'')"
    by (simp_all add: env_batch_def env_subdir_def)
  have rd: "\<forall>n \<in> set (epub_files env_batch (str ''in'')).
              \<exists>book. read_epub env_batch (path_join (str ''in'') n) = Inr book"
    by (simp add: batch_selected batch_names) (simp add: env_batch_def str_def)
  have t: "path_join (str ''out'') (py_stem (str ''a.EPUB'') @ str ''.txt'') = str ''out/a.txt''"
    "path_join (str ''out'') (py_stem (str ''b.epub'') @ str ''.txt'') = str ''out/b.txt''"
    using batch_names by (simp_all add: target_txt_def)
  have w0: "stdout world0 = []" "files world0 = Map.empty"
    by (simp_all add: world0_def)
  from batch_selection [of env_batch "str ''in''" "str ''out''" world0]
    batch_selection [of env_subdir "str ''in''" "str ''out''" world0] dir rd
  show ?thesis
    by (simp add: batch_selected batch_names t w0)
qed

subsection \<open>Inputs with the same stem\<close>

lemma converted_examples:
  "converted env_case (str ''in/a.epub'') = Some (str ''<p>a</p>'' @ [10, 10] @ str ''<p>a</p>'')"
  "converted env_case (str ''in/a.EPUB'')
     = Some (str ''<p>a</p>'' @ [10, 10] @ str ''<p>b</p>'' @ [10, 10] @ str ''<p>c</p>'')"
proof -
  have p: "html_parser env_case = one_paragraph"
    by (simp add: env_case_def)
  have r: "read_epub env_case (str ''in/a.epub'') = Inr pkg_twice"
    "read_epub env_case (str ''in/a.EPUB'') = Inr pkg_abc"
    by (simp_all add: env_case_def str_def)
  show "converted env_case (str ''in/a.epub'') = Some (str ''<p>a</p>'' @ [10, 10] @ str ''<p>a</p>'')"
    by (simp add: converted_def r document_text_eq p pkg_twice_order doc_contents paragraph_text)
  show "converted env_case (str ''in/a.EPUB'')
     = Some (str ''<p>a</p>'' @ [10, 10] @ str ''<p>b</p>'' @ [10, 10] @ str ''<p>c</p>'')"
    by (simp add: converted_def r document_text_eq p pkg_abc_order doc_contents paragraph_text)
qed

text \<open>
  Claim C10: the output path is the output directory joined with the stem and
  \<open>.txt\<close>, so two names have the same output path exactly when they have the same
  stem, as two names that differ only in the letter case of their \<open>.epub\<close> extension
  do. When every selected file can be read, the output file of a selected name holds, at
  the end of the run, the conversion of the last name in sorted order with that stem.
  With \<open>a.epub\<close> and \<open>a.EPUB\<close>, \<open>a.EPUB\<close> is converted first and \<open>a.txt\<close> holds
  the conversion of \<open>a.epub\<close>.
\<close>

theorem same_stem_overwrites:
  assumes "is_dir e d"
    and "\<forall>m \<in> set (epub_files e d). \<exists>book. read_epub e (path_join d m) = Inr book"
    and "n \<in> set (epub_files e d)"
  shows "(\<exists>w'. convert_directory e d outd w = Inr w' \<and>
            files w' (target_txt outd n)
              = converted e (path_join d (last (filter (\<lambda>m. py_stem m = py_stem n) (epub_files e d)))))
    \<and> target_txt outd n = path_join outd (py_stem n @ str ''.txt'')
    \<and> (target_txt outd n1 = target_txt outd n2 \<longleftrightarrow> py_stem n1 = py_stem n2)
    \<and> (s \<noteq> [] \<and> py_lower x1 = str ''.epub'' \<and> py_lower x2 = str ''.epub''
          \<longrightarrow> target_txt outd (s @ x1) = target_txt outd (s @ x2))"
proof -
  have "fold (\<lambda>m f. f(target_txt outd m := converted e (path_join d m))) (epub_files e d) (files w)
          (target_txt outd n)
        = converted e (path_join d
            (last (filter (\<lambda>m. target_txt outd m = target_txt outd n) (epub_files e d))))"
    using assms(3) by (auto simp: fold_upd_lookup)
  then have run: "\<exists>w'. convert_directory e d outd w = Inr w' \<and>
            files w' (target_txt outd n)
              = converted e (path_join d (last (filter (\<lambda>m. py_stem m = py_stem n) (epub_files e d))))"
    by (simp add: convert_directory_readable [OF assms(1,2)] target_txt_eq_iff)
  have "target_txt outd (s @ x1) = target_txt outd (s @ x2)"
    if "s \<noteq> []" "py_lower x1 = str ''.epub''" "py_lower x2 = str ''.epub''"
    using stem_suffix_epub [OF that(1,2)] stem_suffix_epub [OF that(1,3)]
    by (simp add: target_txt_eq_iff)
  with run show ?thesis
    by (simp add: target_txt_eq_iff) (simp add: target_txt_def)
qed

theorem same_stem_overwrites_witness:
  "epub_files env_case (str ''in'') = [str ''a.EPUB'', str ''a.epub''] \<and>
   target_txt (str ''out'') (str ''a.EPUB'') = str ''out/a.txt'' \<and>
   target_txt (str ''out'') (str ''a.epub'') = str ''out/a.txt'' \<and>
   (\<exists>w'. convert_directory env_case (str ''in'') (str ''out'') world0 = Inr w' \<and>
      files w' (str ''out/a.txt'')
        = Some (str ''<p>a</p>'' @ [10, 10] @ str ''<p>a</p>'')) \<and>
   converted env_case (str ''in/a.epub'') = Some (str ''<p>a</p>'' @ [10, 10] @ str ''<p>a</p>'') \<and>
   converted env_case (str ''in/a.EPUB'')
     = Some (str ''<p>a</p>'' @ [10, 10] @ str ''<p>b</p>'' @ [10, 10] @ str ''<p>c</p>'')"
proof -
  have dir: "is_dir env_case (str ''in'')"
    by (simp add: env_case_def)
  have rd: "\<forall>m \<in> set (epub_files env_case (str ''in'')).
              \<exists>book. read_epub env_case (path_join (str ''in'') m) = Inr book"
    by (simp add: batch_selected batch_names) (simp add: env_case_def str_def)
  have n: "str ''a.EPUB'' \<in> set (epub_files env_case (str ''in''))"
    by (simp add: batch_selected)
  have stems: "py_stem (str ''a.EPUB'') = str ''a''" "py_stem (str ''a.epub'') = str ''a''"
    by (simp_all add: py_stem_def rfind_dot_def str_def)
  have low: "str ''a'' \<noteq> [] \<and> py_lower (str ''.EPUB'') = str ''.epub''
               \<and> py_lower (str ''.epub'') = str ''.epub''"
    by (simp add: py_lower_def str_def)
  have t: "path_join (str ''out'') (str ''a'' @ str ''.txt'') = str ''out/a.txt''"
    by (simp add: path_join_def str_def)
  from same_stem_overwrites [OF dir rd n, of "str ''out''" world0 "str ''a.EPUB''" "str ''a.epub''"
      "str ''a''" "str ''.EPUB''" "str ''.epub''"] low
  show ?thesis
    by (simp add: batch_selected batch_names stems converted_examples t)
qed

end
